theory Spec2Isabelle
  imports Main "HOL-Library.AList"
begin

section \<open>The crossword constraint solver of generate.py\<close>

text \<open>
  The development embeds the class \<open>CrosswordCreator\<close> of
  \<open>3.Optimization/crossword/generate.py\<close>. Python sets are lists here (the
  iteration order of a set is the order of the list, and every statement below holds
  for each order), dictionaries are association lists in insertion order, and an
  exception is a value of the type \<open>error\<close>. A method that mutates
  \<open>self.domains\<close> returns the store it leaves behind next to its outcome, also
  when it raises.
\<close>

subsection \<open>Data model\<close>

datatype direction = ACROSS | DOWN

text \<open>
  Modelled from the spec: the class \<open>Variable\<close> of crossword.py (a slot: starting
  row \<open>i\<close>, starting column \<open>j\<close>, direction and length; two slots are equal iff
  all four fields are).
\<close>

datatype variable =
  Variable (var_i: nat) (var_j: nat) (var_direction: direction) (var_length: nat)

type_synonym word = string
type_synonym arc = "variable \<times> variable"
type_synonym domains = "(variable \<times> word list) list"
type_synonym assignment = "(variable \<times> word) list"

text \<open>
  Modelled from the spec: the class \<open>Crossword\<close> of crossword.py, as far as the
  solver reads it: the set of slots, the vocabulary and the overlap dictionary. A pair
  that is no key of the dictionary is \<open>None\<close>, a pair of slots that never meet is
  \<open>Some None\<close>, and a pair meeting at offsets \<open>(p, q)\<close> is \<open>Some (Some (p, q))\<close>.
\<close>

record crossword =
  variables :: "variable list"
  words :: "word list"
  overlaps :: "arc \<Rightarrow> (nat \<times> nat) option option"

text \<open>
  Modelled from the spec: the method \<open>Crossword.neighbors\<close> of crossword.py (two
  slots are neighbors iff they differ and their overlap is defined).
\<close>

definition neighbors :: "crossword \<Rightarrow> variable \<Rightarrow> variable list" where
  "neighbors cw var =
     filter (\<lambda>v. v \<noteq> var \<and> (case overlaps cw (v, var) of Some (Some ov) \<Rightarrow> True | _ \<Rightarrow> False))
       (variables cw)"

text \<open>
  Modelled from the spec: what the constructor of \<open>Crossword\<close> guarantees about the
  grid model. The slots are a set, the overlap dictionary has an entry for each ordered
  pair of different slots, the entry of \<open>(y, x)\<close> is the entry of \<open>(x, y)\<close> swapped,
  and an offset lies inside its slot.
\<close>

definition wf_crossword :: "crossword \<Rightarrow> bool" where
  "wf_crossword cw \<longleftrightarrow>
     distinct (variables cw) \<and>
     (\<forall>x \<in> set (variables cw). \<forall>y \<in> set (variables cw).
        x \<noteq> y \<longrightarrow>
          (case overlaps cw (x, y) of
             None \<Rightarrow> False
           | Some None \<Rightarrow> overlaps cw (y, x) = Some None
           | Some (Some (p, q)) \<Rightarrow>
               overlaps cw (y, x) = Some (Some (q, p)) \<and> p < var_length x \<and> q < var_length y))"

datatype error = KeyError | IndexError | TypeError

subsection \<open>The domain store and node consistency\<close>

text \<open>\<open>__init__\<close>: each slot starts with a copy of the whole vocabulary.\<close>

definition init_domains :: "crossword \<Rightarrow> domains" where
  "init_domains cw = map (\<lambda>var. (var, words cw)) (variables cw)"

text \<open>\<open>for word in words_to_remove: self.domains[x].remove(word)\<close>\<close>

definition remove_words :: "word set \<Rightarrow> word list \<Rightarrow> word list" where
  "remove_words words_to_remove ws = filter (\<lambda>word. word \<notin> words_to_remove) ws"

definition enforce_node_consistency :: "domains \<Rightarrow> domains" where
  "enforce_node_consistency doms =
     map (\<lambda>(var, ws).
            (var, remove_words {word \<in> set ws. length word \<noteq> var_length var} ws))
       doms"

subsection \<open>Arc consistency\<close>

text \<open>
  \<open>{w[overlap[1]] for w in self.domains[y]}\<close>: a missing key and a word that is too
  short raise.
\<close>

definition corresponding_y_chars :: "domains \<Rightarrow> variable \<Rightarrow> nat \<Rightarrow> error + char set" where
  "corresponding_y_chars doms y q =
     (case map_of doms y of
        None \<Rightarrow> Inl KeyError
      | Some dy \<Rightarrow>
          if list_all (\<lambda>w. q < length w) dy then Inr (set (map (\<lambda>w. w ! q) dy))
          else Inl IndexError)"

text \<open>
  The loop of \<open>revise\<close> over \<open>self.domains[x]\<close>, with the accumulators
  \<open>words_to_remove\<close> and \<open>revised\<close>.
\<close>

fun revise_loop ::
  "domains \<Rightarrow> variable \<Rightarrow> nat \<Rightarrow> nat \<Rightarrow> word list \<Rightarrow> word set \<times> bool \<Rightarrow> error + word set \<times> bool"
where
  "revise_loop doms y p q [] acc = Inr acc"
| "revise_loop doms y p q (x_word # rest) (words_to_remove, revised) =
     (case corresponding_y_chars doms y q of
        Inl e \<Rightarrow> Inl e
      | Inr cs \<Rightarrow>
          if p < length x_word then
            (if x_word ! p \<notin> cs
             then revise_loop doms y p q rest (insert x_word words_to_remove, True)
             else revise_loop doms y p q rest (words_to_remove, revised))
          else Inl IndexError)"

definition revise ::
  "crossword \<Rightarrow> domains \<Rightarrow> variable \<Rightarrow> variable \<Rightarrow> (error + bool) \<times> domains"
where
  "revise cw doms x y =
     (case overlaps cw (x, y) of
        None \<Rightarrow> (Inl KeyError, doms)
      | Some None \<Rightarrow> (Inr False, doms)
      | Some (Some (p, q)) \<Rightarrow>
          (case map_of doms x of
             None \<Rightarrow> (Inl KeyError, doms)
           | Some dx \<Rightarrow>
               (case revise_loop doms y p q dx ({}, False) of
                  Inl e \<Rightarrow> (Inl e, doms)
                | Inr (words_to_remove, revised) \<Rightarrow>
                    (Inr revised, AList.update x (remove_words words_to_remove dx) doms))))"

text \<open>
  The initial worklist of \<open>ac3\<close>: the pairs of \<open>itertools.product\<close> that pass
  \<open>arc[0] != arc[1] and self.crossword.overlaps[arc[0], arc[1]] is not None\<close>.
\<close>

fun filter_arcs :: "crossword \<Rightarrow> arc list \<Rightarrow> error + arc list" where
  "filter_arcs cw [] = Inr []"
| "filter_arcs cw ((x, y) # rest) =
     (if x \<noteq> y then
        (case overlaps cw (x, y) of
           None \<Rightarrow> Inl KeyError
         | Some None \<Rightarrow> filter_arcs cw rest
         | Some (Some ov) \<Rightarrow>
             (case filter_arcs cw rest of Inl e \<Rightarrow> Inl e | Inr arcs \<Rightarrow> Inr ((x, y) # arcs)))
      else filter_arcs cw rest)"

definition initial_arcs :: "crossword \<Rightarrow> error + arc list" where
  "initial_arcs cw = filter_arcs cw (List.product (variables cw) (variables cw))"

text \<open>
  One pass through \<open>while queue:\<close>. \<open>Inl\<close> leaves the loop (a return or a raise),
  \<open>Inr\<close> goes round again with the new worklist and store.
\<close>

fun ac3_iteration ::
  "crossword \<Rightarrow> arc list \<Rightarrow> domains \<Rightarrow> ((error + bool) \<times> domains) + (arc list \<times> domains)"
where
  "ac3_iteration cw [] doms = Inl (Inr True, doms)"
| "ac3_iteration cw ((x, y) # queue) doms =
     (case revise cw doms x y of
        (Inl e, doms') \<Rightarrow> Inl (Inl e, doms')
      | (Inr revised, doms') \<Rightarrow>
          if revised then
            (case map_of doms' x of
               None \<Rightarrow> Inl (Inl KeyError, doms')
             | Some dx \<Rightarrow>
                 if length dx = 0 then Inl (Inr False, doms')
                 else Inr (queue @ map (\<lambda>z. (z, x)) (removeAll y (neighbors cw x)), doms'))
          else Inr (queue, doms'))"

definition domains_size :: "domains \<Rightarrow> nat" where
  "domains_size doms = sum_list (map (\<lambda>(var, ws). length ws) doms)"

lemma revise_loop_acc:
  "revise_loop doms y p q xs (rm, rv) = Inr (rm', rv') \<Longrightarrow>
     \<exists>cs. (xs \<noteq> [] \<longrightarrow> corresponding_y_chars doms y q = Inr cs) \<and>
          (\<forall>w \<in> set xs. p < length w) \<and>
          rm' = rm \<union> {w \<in> set xs. w ! p \<notin> cs} \<and>
          (rv' \<longleftrightarrow> rv \<or> (\<exists>w \<in> set xs. w ! p \<notin> cs))"
proof (induction xs arbitrary: rm rv)
  case Nil
  then show ?case by simp
next
  case (Cons w ws)
  from Cons.prems obtain cs where cs: "corresponding_y_chars doms y q = Inr cs"
    by (auto split: sum.splits)
  from Cons.prems cs have len: "p < length w"
    by (auto split: if_splits)
  show ?case
  proof (cases "w ! p \<in> cs")
    case True
    with Cons.prems cs len have "revise_loop doms y p q ws (rm, rv) = Inr (rm', rv')"
      by simp
    from Cons.IH [OF this] cs True len show ?thesis
      by (cases "ws = []") auto
  next
    case False
    with Cons.prems cs len
    have "revise_loop doms y p q ws (insert w rm, True) = Inr (rm', rv')"
      by simp
    from Cons.IH [OF this] cs False len show ?thesis
      by (cases "ws = []") auto
  qed
qed

lemma domains_size_update:
  "map_of doms x = Some dx \<Longrightarrow>
     domains_size (AList.update x new doms) + length dx = domains_size doms + length new"
  by (induction doms) (auto simp: domains_size_def)

lemma revise_cases:
  assumes R: "revise cw doms x y = (r, doms')"
  shows "(\<exists>e. r = Inl e \<and> doms' = doms) \<or>
     (r = Inr False \<and> doms' = doms \<and> overlaps cw (x, y) = Some None) \<or>
     (\<exists>p q dx cs. overlaps cw (x, y) = Some (Some (p, q)) \<and> map_of doms x = Some dx \<and>
        (dx \<noteq> [] \<longrightarrow> corresponding_y_chars doms y q = Inr cs) \<and>
        (\<forall>w \<in> set dx. p < length w) \<and>
        r = Inr (\<exists>w \<in> set dx. w ! p \<notin> cs) \<and>
        doms' = AList.update x (filter (\<lambda>w. w ! p \<in> cs) dx) doms)"
proof (cases "overlaps cw (x, y)")
  case None
  with R show ?thesis by (auto simp: revise_def)
next
  case (Some ov)
  show ?thesis
  proof (cases ov)
    case None
    with Some R show ?thesis by (auto simp: revise_def)
  next
    case (Some pq)
    obtain p q where pq: "pq = (p, q)" by (cases pq)
    note ov = \<open>overlaps cw (x, y) = Some ov\<close> Some pq
    show ?thesis
    proof (cases "map_of doms x")
      case None
      with ov R show ?thesis by (auto simp: revise_def)
    next
      case (Some dx)
      note dx = this
      show ?thesis
      proof (cases "revise_loop doms y p q dx ({}, False)")
        case (Inl e)
        with ov dx R show ?thesis by (auto simp: revise_def)
      next
        case (Inr acc)
        obtain rm rv where acc: "acc = (rm, rv)" by (cases acc)
        from revise_loop_acc [OF Inr [unfolded acc]] obtain cs where
          cs: "dx \<noteq> [] \<longrightarrow> corresponding_y_chars doms y q = Inr cs"
          and len: "\<forall>w \<in> set dx. p < length w"
          and rm: "rm = {w \<in> set dx. w ! p \<notin> cs}"
          and rv: "rv \<longleftrightarrow> (\<exists>w \<in> set dx. w ! p \<notin> cs)"
          by auto
        have "remove_words rm dx = filter (\<lambda>w. w ! p \<in> cs) dx"
          unfolding remove_words_def rm by (rule filter_cong) auto
        with ov dx Inr acc cs len rv show ?thesis
          using R
          by (auto simp: revise_def)
      qed
    qed
  qed
qed

lemma revise_False_same:
  assumes "revise cw doms x y = (Inr False, doms')" shows "doms' = doms"
proof -
  from revise_cases [OF assms] show ?thesis
  proof (elim disjE exE conjE)
    fix p q dx cs
    assume dx: "map_of doms x = Some dx" and r: "Inr False = (Inr (\<exists>w \<in> set dx. w ! p \<notin> cs) :: error + bool)"
      and d: "doms' = AList.update x (filter (\<lambda>w. w ! p \<in> cs) dx) doms"
    from r have "filter (\<lambda>w. w ! p \<in> cs) dx = dx" by (auto intro: filter_True)
    with d dx show ?thesis by (simp add: AList.update_triv)
  qed auto
qed

lemma revise_True_shrinks:
  assumes "revise cw doms x y = (Inr True, doms')"
  shows "domains_size doms' < domains_size doms"
proof -
  from revise_cases [OF assms] show ?thesis
  proof (elim disjE exE conjE)
    fix p q dx cs
    assume dx: "map_of doms x = Some dx" and r: "Inr True = (Inr (\<exists>w \<in> set dx. w ! p \<notin> cs) :: error + bool)"
      and d: "doms' = AList.update x (filter (\<lambda>w. w ! p \<in> cs) dx) doms"
    from r have "length (filter (\<lambda>w. w ! p \<in> cs) dx) < length dx"
      by (auto intro: length_filter_less)
    with domains_size_update [OF dx, of "filter (\<lambda>w. w ! p \<in> cs) dx"] d show ?thesis by simp
  qed auto
qed

lemma ac3_iteration_decreases:
  assumes "ac3_iteration cw queue doms = Inr (queue', doms')"
  shows "((queue', doms'), (queue, doms)) \<in>
           measures [\<lambda>(q, d). domains_size d, \<lambda>(q, d). length q]"
proof (cases queue)
  case Nil
  with assms show ?thesis by simp
next
  case (Cons arc rest)
  obtain x y where arc: "arc = (x, y)" by (cases arc)
  obtain r d where rev: "revise cw doms x y = (r, d)" by (cases "revise cw doms x y")
  show ?thesis
  proof (cases r)
    case (Inl e)
    with assms Cons arc rev show ?thesis by simp
  next
    case (Inr revised)
    show ?thesis
    proof (cases revised)
      case True
      with assms Cons arc rev Inr have "doms' = d"
        by (auto split: option.splits if_splits)
      moreover from rev Inr True have "domains_size d < domains_size doms"
        by (auto dest: revise_True_shrinks)
      ultimately show ?thesis by simp
    next
      case False
      with rev Inr have "d = doms" by (auto dest: revise_False_same)
      with assms Cons arc rev Inr False show ?thesis by simp
    qed
  qed
qed

text \<open>The loop \<open>while queue:\<close> of \<open>ac3\<close>.\<close>

function ac3_loop :: "crossword \<Rightarrow> arc list \<Rightarrow> domains \<Rightarrow> (error + bool) \<times> domains" where
  "ac3_loop cw queue doms =
     (case ac3_iteration cw queue doms of
        Inl r \<Rightarrow> r
      | Inr (queue', doms') \<Rightarrow> ac3_loop cw queue' doms')"
  by pat_completeness auto
termination ac3_loop
  by (relation "inv_image (measures [\<lambda>(q, d). domains_size d, \<lambda>(q, d). length q])
                  (\<lambda>(cw, q, d). (q, d))")
     (auto dest: ac3_iteration_decreases)

declare ac3_loop.simps [simp del]

text \<open>
  \<open>ac3(arcs=None)\<close>: without \<open>arcs\<close> the worklist starts with every arc of the
  problem, otherwise with \<open>arcs\<close>.
\<close>

definition ac3 ::
  "crossword \<Rightarrow> arc list option \<Rightarrow> domains \<Rightarrow> (error + bool) \<times> domains"
where
  "ac3 cw arcs doms =
     (case arcs of
        None \<Rightarrow>
          (case initial_arcs cw of
             Inl e \<Rightarrow> (Inl e, doms)
           | Inr queue \<Rightarrow> ac3_loop cw queue doms)
      | Some queue \<Rightarrow> ac3_loop cw queue doms)"

subsection \<open>The consistency checker\<close>

text \<open>
  \<open>set(assignment.keys()) == self.crossword.variables and all(assignment.values())\<close>:
  a word is true iff it is not empty.
\<close>

definition assignment_complete :: "crossword \<Rightarrow> assignment \<Rightarrow> bool" where
  "assignment_complete cw a \<longleftrightarrow>
     set (map fst a) = set (variables cw) \<and> list_all (\<lambda>word. word \<noteq> []) (map snd a)"

text \<open>
  The inner loop of \<open>consistent\<close> over the assigned neighbors of \<open>var\<close>: \<open>Inr False\<close>
  is the early \<open>return False\<close>, \<open>Inr True\<close> means the loop ran to its end.
\<close>

fun check_neighbors ::
  "crossword \<Rightarrow> assignment \<Rightarrow> variable \<Rightarrow> word \<Rightarrow> variable list \<Rightarrow> error + bool"
where
  "check_neighbors cw a var word [] = Inr True"
| "check_neighbors cw a var word (neighbor # rest) =
     (case overlaps cw (var, neighbor) of
        None \<Rightarrow> Inl KeyError
      | Some None \<Rightarrow> Inl TypeError
      | Some (Some (p, q)) \<Rightarrow>
          if p < length word then
            (case map_of a neighbor of
               None \<Rightarrow> Inl KeyError
             | Some neighbor_word \<Rightarrow>
                 if q < length neighbor_word then
                   (if word ! p \<noteq> neighbor_word ! q then Inr False
                    else check_neighbors cw a var word rest)
                 else Inl IndexError)
          else Inl IndexError)"

text \<open>The outer loop of \<open>consistent\<close> over \<open>assignment.items()\<close>.\<close>

fun check_items :: "crossword \<Rightarrow> assignment \<Rightarrow> assignment \<Rightarrow> error + bool" where
  "check_items cw a [] = Inr True"
| "check_items cw a ((var, word) # rest) =
     (case check_neighbors cw a var word
             (filter (\<lambda>neighbor. neighbor \<in> set (map fst a)) (neighbors cw var)) of
        Inl e \<Rightarrow> Inl e
      | Inr ok \<Rightarrow> if ok then check_items cw a rest else Inr False)"

definition consistent :: "crossword \<Rightarrow> assignment \<Rightarrow> error + bool" where
  "consistent cw a =
     (if card (set (map snd a)) \<noteq> card (set (map fst a)) then Inr False
      else if list_ex (\<lambda>(var, word). var_length var \<noteq> length word) a then Inr False
      else check_items cw a a)"

subsection \<open>The search heuristics\<close>

text \<open>
  The innermost loop of \<open>order_domain_values\<close> over \<open>self.domains[neighbor]\<close>, with
  the running value of \<open>weights[word_var]\<close>.
\<close>

fun count_conflicts :: "word \<Rightarrow> (nat \<times> nat) option \<Rightarrow> word list \<Rightarrow> nat \<Rightarrow> error + nat" where
  "count_conflicts word_var overlap [] weight = Inr weight"
| "count_conflicts word_var overlap (word_neighbor # rest) weight =
     (case overlap of
        None \<Rightarrow> Inl TypeError
      | Some (p, q) \<Rightarrow>
          if p < length word_var \<and> q < length word_neighbor then
            count_conflicts word_var overlap rest
              (if word_var ! p \<noteq> word_neighbor ! q then weight + 1 else weight)
          else Inl IndexError)"

text \<open>The loop over \<open>neighbors - assignment.keys()\<close>.\<close>

fun count_neighbors ::
  "crossword \<Rightarrow> domains \<Rightarrow> variable \<Rightarrow> word \<Rightarrow> variable list \<Rightarrow> nat \<Rightarrow> error + nat"
where
  "count_neighbors cw doms var word_var [] weight = Inr weight"
| "count_neighbors cw doms var word_var (neighbor # rest) weight =
     (case overlaps cw (var, neighbor) of
        None \<Rightarrow> Inl KeyError
      | Some overlap \<Rightarrow>
          (case map_of doms neighbor of
             None \<Rightarrow> Inl KeyError
           | Some dn \<Rightarrow>
               (case count_conflicts word_var overlap dn weight of
                  Inl e \<Rightarrow> Inl e
                | Inr weight' \<Rightarrow> count_neighbors cw doms var word_var rest weight')))"

text \<open>The loop over \<open>self.domains[var]\<close>, giving the items of \<open>weights\<close>.\<close>

fun weigh_words ::
  "crossword \<Rightarrow> domains \<Rightarrow> variable \<Rightarrow> variable list \<Rightarrow> word list \<Rightarrow> error + (word \<times> nat) list"
where
  "weigh_words cw doms var ns [] = Inr []"
| "weigh_words cw doms var ns (word_var # rest) =
     (case count_neighbors cw doms var word_var ns 0 of
        Inl e \<Rightarrow> Inl e
      | Inr weight \<Rightarrow>
          (case weigh_words cw doms var ns rest of
             Inl e \<Rightarrow> Inl e
           | Inr weights \<Rightarrow> Inr ((word_var, weight) # weights)))"

definition order_domain_values ::
  "crossword \<Rightarrow> domains \<Rightarrow> variable \<Rightarrow> assignment \<Rightarrow> error + word list"
where
  "order_domain_values cw doms var a =
     (case map_of doms var of
        None \<Rightarrow> Inl KeyError
      | Some dv \<Rightarrow>
          (case weigh_words cw doms var
                  (filter (\<lambda>neighbor. neighbor \<notin> set (map fst a)) (neighbors cw var)) dv of
             Inl e \<Rightarrow> Inl e
           | Inr weights \<Rightarrow> Inr (map fst (sort_key snd weights))))"

text \<open>\<open>{var: len(self.domains[var]) for var in unassigned_vars}\<close>\<close>

fun n_remaining_vals :: "domains \<Rightarrow> variable list \<Rightarrow> error + (variable \<times> nat) list" where
  "n_remaining_vals doms [] = Inr []"
| "n_remaining_vals doms (var # rest) =
     (case map_of doms var of
        None \<Rightarrow> Inl KeyError
      | Some ws \<Rightarrow>
          (case n_remaining_vals doms rest of
             Inl e \<Rightarrow> Inl e
           | Inr items \<Rightarrow> Inr ((var, length ws) # items)))"

text \<open>
  \<open>sorted\<close> is stable, as \<open>sort_key\<close> is; \<open>reverse=True\<close> keeps the order of equal
  keys, so it is the stable sort by the negated key. Indexing an empty list raises.
\<close>

definition select_unassigned_variable ::
  "crossword \<Rightarrow> domains \<Rightarrow> assignment \<Rightarrow> error + variable"
where
  "select_unassigned_variable cw doms a =
     (let unassigned_vars = filter (\<lambda>var. var \<notin> set (map fst a)) (variables cw) in
      case n_remaining_vals doms unassigned_vars of
        Inl e \<Rightarrow> Inl e
      | Inr items \<Rightarrow>
          (case sort_key snd items of
             [] \<Rightarrow> Inl IndexError
           | [(var, n)] \<Rightarrow> Inr var
           | (var, n) # (var', n') # rest \<Rightarrow>
               if n \<noteq> n' then Inr var
               else
                 (let n_degrees = map (\<lambda>v. (v, length (neighbors cw v))) unassigned_vars in
                  case sort_key (\<lambda>(v, d). - int d) n_degrees of
                    [] \<Rightarrow> Inl IndexError
                  | (v, d) # rest' \<Rightarrow> Inr v)))"

lemma n_remaining_vals_keys:
  "n_remaining_vals doms vs = Inr items \<Longrightarrow> map fst items = vs"
  by (induction vs arbitrary: items) (auto split: option.splits sum.splits)

lemma select_unassigned_variable_unassigned:
  assumes "select_unassigned_variable cw doms a = Inr var"
  shows "var \<in> set (variables cw) \<and> var \<notin> set (map fst a)"
proof -
  let ?us = "filter (\<lambda>var. var \<notin> set (map fst a)) (variables cw)"
  from assms obtain items where items: "n_remaining_vals doms ?us = Inr items"
    by (auto simp: select_unassigned_variable_def Let_def split: sum.splits)
  have keys: "fst ` set (sort_key snd items) = set ?us"
    using n_remaining_vals_keys [OF items] by (metis set_map set_sort)
  have deg: "fst ` set (sort_key (\<lambda>(v, d). - int d) (map (\<lambda>v. (v, length (neighbors cw v))) ?us))
               = set ?us"
    by (simp add: image_image)
  have "var \<in> set ?us"
  proof (cases "sort_key snd items")
    case Nil
    with assms items show ?thesis
      by (simp add: select_unassigned_variable_def Let_def)
  next
    case (Cons it its)
    obtain v n where it: "it = (v, n)" by (cases it)
    from keys Cons it have v: "v \<in> set ?us" by force
    show ?thesis
    proof (cases its)
      case Nil
      with assms items Cons it v show ?thesis
        by (simp add: select_unassigned_variable_def Let_def)
    next
      case (Cons it' its')
      obtain v' n' where it': "it' = (v', n')" by (cases it')
      show ?thesis
      proof (cases "n \<noteq> n'")
        case True
        with assms items \<open>sort_key snd items = it # its\<close> it Cons it' v show ?thesis
          by (simp add: select_unassigned_variable_def Let_def)
      next
        case False
        let ?ds = "sort_key (\<lambda>(v, d). - int d) (map (\<lambda>v. (v, length (neighbors cw v))) ?us)"
        from False assms items \<open>sort_key snd items = it # its\<close> it Cons it'
        have "(case ?ds of [] \<Rightarrow> Inl IndexError | (v, d) # rest' \<Rightarrow> Inr v) = Inr var"
          by (simp add: select_unassigned_variable_def Let_def)
        then obtain d rest' where "?ds = (var, d) # rest'"
          by (auto split: list.splits)
        then have "var \<in> fst ` set ?ds" by force
        with deg show ?thesis by simp
      qed
    qed
  qed
  then show ?thesis by simp
qed

subsection \<open>Backtracking search\<close>

text \<open>
  \<open>backtrack\<close> mutates the dictionary it is given, so it returns, next to its result,
  the assignment and the domain store it leaves behind. \<open>try_values\<close> is its loop
  \<open>for value in self.order_domain_values(var, assignment)\<close> over the values still to
  try. \<open>test_assignment\<close> is the deep copy with \<open>var\<close> set to \<open>value\<close>;
  \<open>assignment[var] = value\<close> is \<open>AList.update\<close> (a new key goes last) and
  \<open>assignment.pop(var, None)\<close> is \<open>AList.delete\<close>.
\<close>

function backtrack ::
    "crossword \<Rightarrow> domains \<Rightarrow> assignment \<Rightarrow> (error + assignment option) \<times> assignment \<times> domains"
  and try_values ::
    "crossword \<Rightarrow> domains \<Rightarrow> variable \<Rightarrow> word list \<Rightarrow> assignment \<Rightarrow>
       (error + assignment option) \<times> assignment \<times> domains"
where
  "backtrack cw doms a =
     (if assignment_complete cw a then (Inr (Some a), a, doms)
      else
        (case select_unassigned_variable cw doms a of
           Inl e \<Rightarrow> (Inl e, a, doms)
         | Inr var \<Rightarrow>
             (case order_domain_values cw doms var a of
                Inl e \<Rightarrow> (Inl e, a, doms)
              | Inr vals \<Rightarrow> try_values cw doms var vals a)))"
| "try_values cw doms var [] a = (Inr None, a, doms)"
| "try_values cw doms var (val # rest) a =
     (let test_assignment = AList.update var val a in
      case consistent cw test_assignment of
        Inl e \<Rightarrow> (Inl e, a, doms)
      | Inr ok \<Rightarrow>
          if ok then
            (case backtrack cw doms (AList.update var val a) of
               (Inr None, a', doms') \<Rightarrow> try_values cw doms' var rest (AList.delete var a')
             | (Inr (Some result), a', doms') \<Rightarrow> (Inr (Some result), a', doms')
             | (Inl e, a', doms') \<Rightarrow> (Inl e, a', doms'))
          else try_values cw doms var rest (AList.delete var a))"
  by pat_completeness auto

lemma backtrack_try_values_partial:
  "backtrack_try_values_dom (Inl (cw, doms, a)) \<Longrightarrow>
     snd (snd (backtrack cw doms a)) = doms \<and>
     (fst (backtrack cw doms a) = Inr None \<longrightarrow> fst (snd (backtrack cw doms a)) = a)"
  "backtrack_try_values_dom (Inr (cw, doms, var, vals, a)) \<Longrightarrow>
     snd (snd (try_values cw doms var vals a)) = doms \<and>
     (fst (try_values cw doms var vals a) = Inr None \<longrightarrow>
        fst (snd (try_values cw doms var vals a)) =
          (if vals = [] then a else AList.delete var a))"
proof (induct rule: backtrack_try_values.pinduct)
  case (1 cw doms a)
  show ?case
  proof (cases "assignment_complete cw a")
    case True
    with 1(1) show ?thesis by (simp add: backtrack.psimps)
  next
    case False
    show ?thesis
    proof (cases "select_unassigned_variable cw doms a")
      case (Inl e)
      with False 1(1) show ?thesis by (simp add: backtrack.psimps)
    next
      case (Inr var)
      note var = this
      from select_unassigned_variable_unassigned [OF var]
      have notin: "var \<notin> fst ` set a" by simp
      show ?thesis
      proof (cases "order_domain_values cw doms var a")
        case (Inl e)
        with False var 1(1) show ?thesis by (simp add: backtrack.psimps)
      next
        case (Inr vals)
        from 1(2) [OF False var Inr] notin False var Inr 1(1) show ?thesis
          by (simp add: backtrack.psimps)
      qed
    qed
  qed
next
  case (2 cw doms var a)
  then show ?case by (simp add: try_values.psimps)
next
  case (3 cw doms var val rest a)
  note dom = 3(1)
  show ?case
  proof (cases "consistent cw (AList.update var val a)")
    case (Inl e)
    with dom show ?thesis by (simp add: try_values.psimps)
  next
    case (Inr ok)
    note ok = this
    show ?thesis
    proof (cases ok)
      case False
      from 3(4) [OF refl ok False] ok False dom show ?thesis
        by (simp add: try_values.psimps AList.delete_idem)
    next
      case True
      obtain r a' d' where bt: "backtrack cw doms (AList.update var val a) = (r, a', d')"
        by (cases "backtrack cw doms (AList.update var val a)") auto
      from 3(2) [OF refl ok True] bt
      have d': "d' = doms" and a': "r = Inr None \<Longrightarrow> a' = AList.update var val a"
        by simp_all
      show ?thesis
      proof (cases r)
        case (Inl e)
        with ok True bt d' dom show ?thesis by (simp add: try_values.psimps)
      next
        case (Inr res)
        show ?thesis
        proof (cases res)
          case (Some result)
          with Inr ok True bt d' dom show ?thesis by (simp add: try_values.psimps)
        next
          case None
          from 3(3) [OF refl ok True bt [symmetric] Inr None refl] a' Inr None
          have "snd (snd (try_values cw d' var rest (AList.delete var a'))) = d' \<and>
                (fst (try_values cw d' var rest (AList.delete var a')) = Inr None \<longrightarrow>
                 fst (snd (try_values cw d' var rest (AList.delete var a'))) = AList.delete var a)"
            by (simp add: AList.delete_update_same AList.delete_idem)
          with Inr None ok True bt d' dom show ?thesis
            by (simp add: try_values.psimps)
        qed
      qed
    qed
  qed
qed

termination backtrack
proof (relation "inv_image (less_than <*lex*> less_than)
     (\<lambda>s. case s of
        Inl (cw, doms, a) \<Rightarrow> (2 * card (set (variables cw) - set (map fst a)), 0)
      | Inr (cw, doms, var, vals, a) \<Rightarrow>
          (2 * card (set (variables cw) - set (map fst a) - {var}) + 1, length vals))",
     goal_cases)
  case 1
  show ?case by (intro wf_inv_image wf_lex_prod wf_less_than)
next
  case (2 cw doms a var vals)
  from select_unassigned_variable_unassigned [OF 2(2)]
  have "var \<in> set (variables cw) - set (map fst a)" by simp
  then have "card (set (variables cw) - set (map fst a) - {var})
               < card (set (variables cw) - set (map fst a))"
    by (intro card_Diff1_less) auto
  then show ?case by simp
next
  case (3 cw doms var val rest a test ok)
  have "set (variables cw) - set (map fst (AList.update var val a))
          = set (variables cw) - set (map fst a) - {var}"
    by (auto simp: AList.dom_update)
  then show ?case by simp
next
  case (4 cw doms var val rest a test ok r y res a' d')
  have "a' = AList.update var val a"
    using 4 backtrack_try_values_partial(1) [of cw doms "AList.update var val a"]
    by (metis fst_conv snd_conv)
  then have "set (map fst (AList.delete var a')) = set (map fst a) - {var}"
    by (auto simp: AList.delete_keys AList.update_keys)
  then have "set (variables cw) - set (map fst (AList.delete var a')) - {var}
          = set (variables cw) - set (map fst a) - {var}"
    by auto
  then show ?case by simp
next
  case (5 cw doms var val rest a test ok)
  have "set (variables cw) - set (map fst (AList.delete var a)) - {var}
          = set (variables cw) - set (map fst a) - {var}"
    by (auto simp: AList.delete_keys)
  then show ?case by simp
qed

declare backtrack.simps [simp del]

section \<open>A grid with three slots\<close>

text \<open>
  The grid of four rows and three columns whose first row and whose first and last
  columns are fillable: one slot across the top and two slots down from its ends. The
  two slots down never meet.
\<close>

definition slot_across :: variable where
  "slot_across = Variable 0 0 ACROSS 3"

definition slot_left :: variable where
  "slot_left = Variable 0 0 DOWN 4"

definition slot_right :: variable where
  "slot_right = Variable 0 2 DOWN 4"

definition example_crossword :: crossword where
  "example_crossword =
     \<lparr>variables = [slot_across, slot_left, slot_right],
      words = [''ABBA'', ''ANA'', ''APA''],
      overlaps = map_of
        [((slot_across, slot_left), Some (0, 0)),
         ((slot_left, slot_across), Some (0, 0)),
         ((slot_across, slot_right), Some (2, 0)),
         ((slot_right, slot_across), Some (0, 2)),
         ((slot_left, slot_right), None),
         ((slot_right, slot_left), None)]\<rparr>"

lemmas example_defs = example_crossword_def slot_across_def slot_left_def slot_right_def

definition example_domains :: domains where
  "example_domains = enforce_node_consistency (init_domains example_crossword)"

text \<open>The same grid with a second word of four letters, so that it can be filled.\<close>

definition example_crossword_4 :: crossword where
  "example_crossword_4 = example_crossword\<lparr>words := [''ABBA'', ''ANA'', ''APA'', ''AREA'']\<rparr>"

definition example_domains_4 :: domains where
  "example_domains_4 = enforce_node_consistency (init_domains example_crossword_4)"

text \<open>The same grid with a vocabulary that cannot fill it.\<close>

definition example_crossword_unsat :: crossword where
  "example_crossword_unsat = example_crossword\<lparr>words := [''ABBA'', ''ONE'']\<rparr>"

definition example_domains_unsat :: domains where
  "example_domains_unsat = enforce_node_consistency (init_domains example_crossword_unsat)"

section \<open>Specification predicates\<close>

text \<open>
  \<open>domains_subset doms' doms\<close>: the store \<open>doms'\<close> has the slots of \<open>doms\<close>, in the
  same order, and each of its domains is a subset of the domain in \<open>doms\<close>.
\<close>

definition domains_subset :: "domains \<Rightarrow> domains \<Rightarrow> bool" where
  "domains_subset doms' doms \<longleftrightarrow>
     list_all2 (\<lambda>(var', ws') (var, ws). var' = var \<and> set ws' \<subseteq> set ws) doms' doms"

text \<open>
  \<open>length_invariant doms\<close>: each word of each domain has the length of its slot.
\<close>

definition length_invariant :: "domains \<Rightarrow> bool" where
  "length_invariant doms \<longleftrightarrow>
     list_all (\<lambda>(var, ws). list_all (\<lambda>word. length word = var_length var) ws) doms"

text \<open>The loop of \<open>ac3\<close> cut off after \<open>n\<close> passes: \<open>None\<close> when it has not left by then.\<close>

fun ac3_bounded ::
  "nat \<Rightarrow> crossword \<Rightarrow> arc list \<Rightarrow> domains \<Rightarrow> ((error + bool) \<times> domains) option"
where
  "ac3_bounded 0 cw queue doms = None"
| "ac3_bounded (Suc n) cw queue doms =
     (case ac3_iteration cw queue doms of
        Inl r \<Rightarrow> Some r
      | Inr (queue', doms') \<Rightarrow> ac3_bounded n cw queue' doms')"

text \<open>A complete consistent assignment, as the two checks of the solver accept it.\<close>

definition solution :: "crossword \<Rightarrow> assignment \<Rightarrow> bool" where
  "solution cw a \<longleftrightarrow> assignment_complete cw a \<and> consistent cw a = Inr True"

text \<open>\<open>within_domains doms a\<close>: each word of the assignment is in the domain of its slot.\<close>

definition within_domains :: "domains \<Rightarrow> assignment \<Rightarrow> bool" where
  "within_domains doms a \<longleftrightarrow>
     list_all (\<lambda>(var, word). case map_of doms var of None \<Rightarrow> False | Some ws \<Rightarrow> word \<in> set ws) a"

text \<open>The arcs of a worklist join different slots of the grid.\<close>

definition proper_arcs :: "crossword \<Rightarrow> arc list \<Rightarrow> bool" where
  "proper_arcs cw queue \<longleftrightarrow>
     list_all (\<lambda>(x, y). x \<in> set (variables cw) \<and> y \<in> set (variables cw) \<and> x \<noteq> y) queue"

text \<open>
  \<open>supported doms A B p q\<close>: the slot \<open>A\<close> has a domain, and each word of it has a
  word in the domain of \<open>B\<close> whose character at \<open>q\<close> is its character at \<open>p\<close>.
\<close>

definition supported :: "domains \<Rightarrow> variable \<Rightarrow> variable \<Rightarrow> nat \<Rightarrow> nat \<Rightarrow> bool" where
  "supported doms A B p q \<longleftrightarrow>
     (case map_of doms A of
        None \<Rightarrow> False
      | Some da \<Rightarrow>
          list_all
            (\<lambda>w. case map_of doms B of
                   None \<Rightarrow> False
                 | Some db \<Rightarrow> list_ex (\<lambda>w'. p < length w \<and> q < length w' \<and> w ! p = w' ! q) db)
            da)"

text \<open>
  The store is arc consistent: for each ordered pair of different slots with an
  overlap, the first is supported by the second. Both orders of a pair are among the
  ordered pairs.
\<close>

definition arc_consistent :: "crossword \<Rightarrow> domains \<Rightarrow> bool" where
  "arc_consistent cw doms \<longleftrightarrow>
     list_all
       (\<lambda>(A, B). case overlaps cw (A, B) of
                   Some (Some (p, q)) \<Rightarrow> A = B \<or> supported doms A B p q
                 | _ \<Rightarrow> True)
       (List.product (variables cw) (variables cw))"

text \<open>The invariant of the loop: an arc is waiting in the worklist or is supported.\<close>

definition ac3_invariant :: "crossword \<Rightarrow> arc list \<Rightarrow> domains \<Rightarrow> bool" where
  "ac3_invariant cw queue doms \<longleftrightarrow>
     (\<forall>x \<in> set (variables cw). \<forall>y \<in> set (variables cw). \<forall>p q.
        x \<noteq> y \<and> overlaps cw (x, y) = Some (Some (p, q)) \<longrightarrow>
          (x, y) \<in> set queue \<or> supported doms x y p q)"

section \<open>Properties\<close>

subsection \<open>Slots that do not meet\<close>

text \<open>
  C9: for slots \<open>x\<close> and \<open>y\<close> whose entry in the overlap dictionary is \<open>None\<close>,
  \<open>revise(x, y)\<close> returns \<open>False\<close> and leaves the whole domain store as it was.
\<close>

theorem revise_no_overlap:
  "overlaps cw (x, y) = Some None \<Longrightarrow> revise cw doms x y = (Inr False, doms)"
  by (simp add: revise_def)

theorem revise_no_overlap_witness:
  "overlaps example_crossword (slot_left, slot_right) = Some None \<and>
   revise example_crossword example_domains slot_left slot_right = (Inr False, example_domains)"
proof -
  have h: "overlaps example_crossword (slot_left, slot_right) = Some None"
    by (simp add: example_defs)
  from revise_no_overlap [OF h] h show ?thesis by simp
qed

subsection \<open>The base case of the search\<close>

text \<open>
  C10: for each assignment that \<open>assignment_complete\<close> accepts, consistent or not,
  \<open>backtrack\<close> returns that assignment at once and unchanged; \<open>consistent\<close> is not
  consulted, so an assignment with a word used twice is returned as well.
\<close>

theorem backtrack_complete:
  "assignment_complete cw a \<Longrightarrow> backtrack cw doms a = (Inr (Some a), a, doms)"
  by (simp add: backtrack.simps)

theorem backtrack_complete_witness:
  "assignment_complete example_crossword
     [(slot_across, ''ANA''), (slot_left, ''ABBA''), (slot_right, ''ABBA'')] \<and>
   consistent example_crossword
     [(slot_across, ''ANA''), (slot_left, ''ABBA''), (slot_right, ''ABBA'')] = Inr False \<and>
   backtrack example_crossword example_domains
     [(slot_across, ''ANA''), (slot_left, ''ABBA''), (slot_right, ''ABBA'')] =
     (Inr (Some [(slot_across, ''ANA''), (slot_left, ''ABBA''), (slot_right, ''ABBA'')]),
      [(slot_across, ''ANA''), (slot_left, ''ABBA''), (slot_right, ''ABBA'')],
      example_domains)"
proof -
  have h: "assignment_complete example_crossword
     [(slot_across, ''ANA''), (slot_left, ''ABBA''), (slot_right, ''ABBA'')]"
    by code_simp
  have c: "consistent example_crossword
     [(slot_across, ''ANA''), (slot_left, ''ABBA''), (slot_right, ''ABBA'')] = Inr False"
    by code_simp
  from backtrack_complete [OF h] h c show ?thesis by simp
qed

subsection \<open>Domains only shrink\<close>

lemma domains_subset_refl: "domains_subset doms doms"
  by (simp add: domains_subset_def list_all2_same split_def)

lemma domains_subset_trans:
  "domains_subset d3 d2 \<Longrightarrow> domains_subset d2 d1 \<Longrightarrow> domains_subset d3 d1"
  unfolding domains_subset_def
  by (rule list_all2_trans [where ?P1.0 = "\<lambda>(var', ws') (var, ws). var' = var \<and> set ws' \<subseteq> set ws"
        and ?P2.0 = "\<lambda>(var', ws') (var, ws). var' = var \<and> set ws' \<subseteq> set ws"])
     auto

lemma domains_subset_enforce: "domains_subset (enforce_node_consistency doms) doms"
  by (induction doms)
     (auto simp: domains_subset_def enforce_node_consistency_def remove_words_def)

lemma domains_subset_update:
  "map_of doms x = Some dx \<Longrightarrow> set new \<subseteq> set dx \<Longrightarrow>
     domains_subset (AList.update x new doms) doms"
proof (induction doms)
  case Nil
  then show ?case by simp
next
  case (Cons e doms)
  then show ?case
    using domains_subset_refl [of doms]
    by (cases e) (auto simp: domains_subset_def split: if_splits)
qed

lemma domains_subset_revise: "domains_subset (snd (revise cw doms x y)) doms"
proof -
  obtain r d where rev: "revise cw doms x y = (r, d)" by (cases "revise cw doms x y")
  from revise_cases [OF rev] have "domains_subset d doms"
    by (auto simp: domains_subset_refl intro: domains_subset_update)
  with rev show ?thesis by simp
qed

lemma ac3_iteration_subset:
  assumes "ac3_iteration cw queue doms = r"
  shows "(case r of Inl (res, doms') \<Rightarrow> domains_subset doms' doms
                  | Inr (queue', doms') \<Rightarrow> domains_subset doms' doms)"
proof (cases queue)
  case Nil
  with assms show ?thesis by (auto simp: domains_subset_refl)
next
  case (Cons arc rest)
  obtain x y where arc: "arc = (x, y)" by (cases arc)
  obtain res d where rev: "revise cw doms x y = (res, d)" by (cases "revise cw doms x y")
  from domains_subset_revise [of cw doms x y] rev have "domains_subset d doms" by simp
  with assms Cons arc rev show ?thesis
    by (auto split: sum.splits option.splits if_splits)
qed

lemma domains_subset_ac3_loop: "domains_subset (snd (ac3_loop cw queue doms)) doms"
proof (induction cw queue doms rule: ac3_loop.induct)
  case (1 cw queue doms)
  show ?case
  proof (cases "ac3_iteration cw queue doms")
    case (Inl r)
    with ac3_iteration_subset [OF Inl] show ?thesis
      by (cases r) (simp add: ac3_loop.simps [of cw queue doms])
  next
    case (Inr s)
    obtain queue' doms' where s: "s = (queue', doms')" by (cases s)
    from ac3_iteration_subset [OF Inr] s have "domains_subset doms' doms" by simp
    moreover from 1 [OF Inr [unfolded s] refl]
    have "domains_subset (snd (ac3_loop cw queue' doms')) doms'" .
    ultimately show ?thesis
      using Inr s by (auto simp: ac3_loop.simps [of cw queue doms] intro: domains_subset_trans)
  qed
qed

lemma domains_subset_ac3: "domains_subset (snd (ac3 cw arcs doms)) doms"
  by (auto simp: ac3_def domains_subset_refl domains_subset_ac3_loop
           split: option.splits sum.splits)

text \<open>
  What \<open>backtrack\<close> and its loop leave behind: the domain store they were given, and,
  when they return \<open>None\<close>, the assignment without the entry of the slot being tried.
\<close>

lemma backtrack_try_values_frame:
  "snd (snd (backtrack cw doms a)) = doms \<and>
     (fst (backtrack cw doms a) = Inr None \<longrightarrow> fst (snd (backtrack cw doms a)) = a)"
  "snd (snd (try_values cw doms var vals a)) = doms \<and>
     (fst (try_values cw doms var vals a) = Inr None \<longrightarrow>
        fst (snd (try_values cw doms var vals a)) =
          (if vals = [] then a else AList.delete var a))"
proof (induct cw doms a and cw doms var vals a rule: backtrack_try_values.induct)
  case (1 cw doms a)
  show ?case
  proof (cases "assignment_complete cw a")
    case True
    then show ?thesis by (simp add: backtrack.simps)
  next
    case False
    show ?thesis
    proof (cases "select_unassigned_variable cw doms a")
      case (Inl e)
      with False show ?thesis by (simp add: backtrack.simps)
    next
      case (Inr var)
      note var = this
      from select_unassigned_variable_unassigned [OF var]
      have notin: "var \<notin> fst ` set a" by simp
      show ?thesis
      proof (cases "order_domain_values cw doms var a")
        case (Inl e)
        with False var show ?thesis by (simp add: backtrack.simps)
      next
        case (Inr vals)
        from 1 [OF False var Inr] notin False var Inr show ?thesis
          by (simp add: backtrack.simps)
      qed
    qed
  qed
next
  case (2 cw doms var a)
  then show ?case by simp
next
  case (3 cw doms var val rest a)
  show ?case
  proof (cases "consistent cw (AList.update var val a)")
    case (Inl e)
    then show ?thesis by simp
  next
    case (Inr ok)
    note ok = this
    show ?thesis
    proof (cases ok)
      case False
      from 3(3) [OF refl ok False] ok False show ?thesis
        by (simp add: AList.delete_idem)
    next
      case True
      obtain r a' d' where bt: "backtrack cw doms (AList.update var val a) = (r, a', d')"
        by (cases "backtrack cw doms (AList.update var val a)") auto
      from 3(1) [OF refl ok True] bt
      have d': "d' = doms" and a': "r = Inr None \<Longrightarrow> a' = AList.update var val a"
        by simp_all
      show ?thesis
      proof (cases r)
        case (Inl e)
        with ok True bt d' show ?thesis by simp
      next
        case (Inr res)
        show ?thesis
        proof (cases res)
          case (Some result)
          with Inr ok True bt d' show ?thesis by simp
        next
          case None
          from 3(2) [OF refl ok True bt [symmetric] Inr None refl] a' Inr None
          have "snd (snd (try_values cw d' var rest (AList.delete var a'))) = d' \<and>
                (fst (try_values cw d' var rest (AList.delete var a')) = Inr None \<longrightarrow>
                 fst (snd (try_values cw d' var rest (AList.delete var a'))) = AList.delete var a)"
            by (simp add: AList.delete_update_same AList.delete_idem)
          with Inr None ok True bt d' show ?thesis by simp
        qed
      qed
    qed
  qed
qed

text \<open>
  C8: \<open>enforce_node_consistency\<close>, \<open>revise\<close> and \<open>ac3\<close> leave each slot's domain a
  subset of what it was (words are removed, never added), whatever their outcome, and
  \<open>backtrack\<close> leaves the domain store as it found it.
\<close>

theorem domains_shrink:
  "domains_subset (enforce_node_consistency doms) doms \<and>
   domains_subset (snd (revise cw doms x y)) doms \<and>
   domains_subset (snd (ac3 cw arcs doms)) doms \<and>
   snd (snd (backtrack cw doms a)) = doms"
  by (simp add: domains_subset_enforce domains_subset_revise domains_subset_ac3
        backtrack_try_values_frame(1))

subsection \<open>Undo on failure\<close>

text \<open>
  C7: when \<open>backtrack\<close> returns \<open>None\<close>, the assignment holds the entries it held
  before the call, in the same order: each tentative entry was removed on the way out.
\<close>

theorem backtrack_failure_restores:
  "fst (backtrack cw doms a) = Inr None \<Longrightarrow> fst (snd (backtrack cw doms a)) = a"
  by (simp add: backtrack_try_values_frame(1))

text \<open>
  A failing search that adds and removes entries: from the empty assignment the slot
  across is selected, \<open>ANA\<close> passes \<open>consistent\<close> and is entered, the search below
  it enters \<open>ABBA\<close> for the left slot and fails on the right one, and both entries
  are gone when \<open>None\<close> comes back.
\<close>

theorem backtrack_failure_restores_witness:
  "select_unassigned_variable example_crossword example_domains [] = Inr slot_across \<and>
   order_domain_values example_crossword example_domains slot_across [] =
     Inr [''ANA'', ''APA''] \<and>
   consistent example_crossword (AList.update slot_across ''ANA'' []) = Inr True \<and>
   consistent example_crossword
     (AList.update slot_left ''ABBA'' [(slot_across, ''ANA'')]) = Inr True \<and>
   fst (backtrack example_crossword example_domains []) = Inr None \<and>
   fst (snd (backtrack example_crossword example_domains [])) = []"
proof -
  have s: "select_unassigned_variable example_crossword example_domains [] = Inr slot_across"
    by code_simp
  have v: "order_domain_values example_crossword example_domains slot_across [] =
             Inr [''ANA'', ''APA'']"
    by code_simp
  have c1: "consistent example_crossword (AList.update slot_across ''ANA'' []) = Inr True"
    by code_simp
  have c2: "consistent example_crossword
              (AList.update slot_left ''ABBA'' [(slot_across, ''ANA'')]) = Inr True"
    by code_simp
  have h: "fst (backtrack example_crossword example_domains []) = Inr None"
    by code_simp
  from backtrack_failure_restores [OF h] s v c1 c2 h show ?thesis by simp
qed

subsection \<open>The length invariant\<close>

lemma length_invariant_enforce: "length_invariant (enforce_node_consistency doms)"
  by (induction doms)
     (auto simp: length_invariant_def enforce_node_consistency_def remove_words_def
        list_all_iff)

lemma length_invariant_subset:
  "domains_subset doms' doms \<Longrightarrow> length_invariant doms \<Longrightarrow> length_invariant doms'"
  unfolding domains_subset_def length_invariant_def
  by (induction doms' doms rule: list_all2_induct) (auto simp: list_all_iff subset_iff)

text \<open>
  C5: after \<open>enforce_node_consistency\<close> each word of each slot's domain has the
  length of the slot, and \<open>revise\<close>, \<open>ac3\<close> and \<open>backtrack\<close> keep a store with
  that property in that state.
\<close>

theorem length_invariant_kept:
  "length_invariant (enforce_node_consistency doms) \<and>
   (length_invariant doms \<longrightarrow>
      length_invariant (snd (revise cw doms x y)) \<and>
      length_invariant (snd (ac3 cw arcs doms)) \<and>
      length_invariant (snd (snd (backtrack cw doms a))))"
  using length_invariant_subset [OF domains_subset_revise [of cw doms x y]]
        length_invariant_subset [OF domains_subset_ac3 [of cw arcs doms]]
  by (simp add: length_invariant_enforce backtrack_try_values_frame(1))

theorem length_invariant_kept_witness:
  "length_invariant example_domains \<and>
   length_invariant (snd (revise example_crossword example_domains slot_across slot_left)) \<and>
   length_invariant (snd (ac3 example_crossword None example_domains)) \<and>
   length_invariant (snd (snd (backtrack example_crossword example_domains [])))"
proof -
  have h: "length_invariant example_domains" by code_simp
  from length_invariant_kept [of example_domains example_crossword slot_across slot_left
         None "[]"] h
  show ?thesis by simp
qed

subsection \<open>Termination of the worklist loop\<close>

lemma ac3_loop_bounded: "\<exists>n. ac3_bounded n cw queue doms = Some (ac3_loop cw queue doms)"
proof (induction cw queue doms rule: ac3_loop.induct)
  case (1 cw queue doms)
  show ?case
  proof (cases "ac3_iteration cw queue doms")
    case (Inl r)
    then have "ac3_bounded (Suc 0) cw queue doms = Some (ac3_loop cw queue doms)"
      by (simp add: ac3_loop.simps [of cw queue doms])
    then show ?thesis ..
  next
    case (Inr s)
    obtain queue' doms' where s: "s = (queue', doms')" by (cases s)
    from 1 [OF Inr [unfolded s] refl] obtain n where
      "ac3_bounded n cw queue' doms' = Some (ac3_loop cw queue' doms')" ..
    with Inr s have "ac3_bounded (Suc n) cw queue doms = Some (ac3_loop cw queue doms)"
      by (simp add: ac3_loop.simps [of cw queue doms])
    then show ?thesis ..
  qed
qed

lemma ac3_iteration_wf:
  "wf {((queue', doms'), (queue, doms)). ac3_iteration cw queue doms = Inr (queue', doms')}"
proof (rule wf_subset)
  show "wf (measures [\<lambda>(q, d). domains_size d, \<lambda>(q, d :: domains). length (q :: arc list)])"
    by simp
  show "{((queue', doms'), (queue, doms)). ac3_iteration cw queue doms = Inr (queue', doms')}
          \<subseteq> measures [\<lambda>(q, d). domains_size d, \<lambda>(q, d). length q]"
    using ac3_iteration_decreases by blast
qed

lemma ac3_iteration_progress:
  assumes "ac3_iteration cw (arc # queue) doms = Inr (queue', doms')"
  shows "domains_size doms' < domains_size doms \<or> (doms' = doms \<and> queue' = queue)"
proof -
  obtain x y where arc: "arc = (x, y)" by (cases arc)
  obtain r d where rev: "revise cw doms x y = (r, d)" by (cases "revise cw doms x y")
  show ?thesis
  proof (cases r)
    case (Inl e)
    with assms arc rev show ?thesis by simp
  next
    case (Inr revised)
    show ?thesis
    proof (cases revised)
      case True
      with assms arc rev Inr have "doms' = d"
        by (auto split: option.splits if_splits)
      with revise_True_shrinks [of cw doms x y d] rev Inr True show ?thesis by simp
    next
      case False
      with revise_False_same [of cw doms x y d] rev Inr have "d = doms" by simp
      with assms arc rev Inr False show ?thesis by simp
    qed
  qed
qed

text \<open>
  C6: \<open>ac3\<close> terminates on each input. A pass through the loop that goes round again
  either has removed a word (the store has shrunk) or has left the store alone and has
  added no arc, so the passes are a well-founded relation, and the loop leaves, with
  the result of \<open>ac3_loop\<close>, after finitely many of them.
\<close>

theorem ac3_terminates:
  "wf {((queue', doms'), (queue, doms)). ac3_iteration cw queue doms = Inr (queue', doms')} \<and>
   (\<exists>n. ac3_bounded n cw queue doms = Some (ac3_loop cw queue doms)) \<and>
   (ac3_iteration cw (arc # queue) doms = Inr (queue', doms') \<longrightarrow>
      domains_size doms' < domains_size doms \<or> (doms' = doms \<and> queue' = queue))"
  using ac3_iteration_wf [of cw] ac3_loop_bounded [of cw queue doms]
    ac3_iteration_progress [of cw arc queue doms queue' doms']
  by blast

theorem ac3_terminates_witness:
  "ac3_iteration example_crossword [(slot_across, slot_right)] (init_domains example_crossword) =
     Inr ([(slot_left, slot_across)],
          [(slot_across, [''ANA'', ''APA'']),
           (slot_left, [''ABBA'', ''ANA'', ''APA'']),
           (slot_right, [''ABBA'', ''ANA'', ''APA''])]) \<and>
   domains_size
     [(slot_across, [''ANA'', ''APA'']),
      (slot_left, [''ABBA'', ''ANA'', ''APA'']),
      (slot_right, [''ABBA'', ''ANA'', ''APA''])]
     < domains_size (init_domains example_crossword)"
proof -
  have h: "ac3_iteration example_crossword [(slot_across, slot_right)]
             (init_domains example_crossword) =
           Inr ([(slot_left, slot_across)],
                [(slot_across, [''ANA'', ''APA'']),
                 (slot_left, [''ABBA'', ''ANA'', ''APA'']),
                 (slot_right, [''ABBA'', ''ANA'', ''APA''])])"
    by code_simp
  from ac3_terminates [where cw = example_crossword and queue = "[]"
         and doms = "init_domains example_crossword" and arc = "(slot_across, slot_right)"
         and queue' = "[(slot_left, slot_across)]"
         and doms' = "[(slot_across, [''ANA'', ''APA'']),
                       (slot_left, [''ABBA'', ''ANA'', ''APA'']),
                       (slot_right, [''ABBA'', ''ANA'', ''APA''])]"] h
  show ?thesis by simp
qed

subsection \<open>What the search returns\<close>

lemma backtrack_try_values_result:
  "fst (backtrack cw doms a) = Inr (Some r) \<Longrightarrow>
     fst (snd (backtrack cw doms a)) = r \<and> assignment_complete cw r \<and>
     (if assignment_complete cw a then r = a else consistent cw r = Inr True)"
  "fst (try_values cw doms var vals a) = Inr (Some r) \<Longrightarrow>
     fst (snd (try_values cw doms var vals a)) = r \<and> assignment_complete cw r \<and>
     consistent cw r = Inr True"
proof (induct cw doms a and cw doms var vals a arbitrary: r and r
         rule: backtrack_try_values.induct)
  case (1 cw doms a)
  show ?case
  proof (cases "assignment_complete cw a")
    case True
    with 1(2) show ?thesis by (simp add: backtrack.simps)
  next
    case False
    with 1(2) obtain var where var: "select_unassigned_variable cw doms a = Inr var"
      by (auto simp: backtrack.simps split: sum.splits)
    with False 1(2) obtain vals where vals: "order_domain_values cw doms var a = Inr vals"
      by (auto simp: backtrack.simps split: sum.splits)
    from False var vals 1(2) have "fst (try_values cw doms var vals a) = Inr (Some r)"
      by (simp add: backtrack.simps)
    from 1(1) [OF False var vals this] False var vals show ?thesis
      by (simp add: backtrack.simps)
  qed
next
  case (2 cw doms var a)
  then show ?case by simp
next
  case (3 cw doms var val rest a)
  from 3(4) obtain ok where ok: "consistent cw (AList.update var val a) = Inr ok"
    by (auto split: sum.splits)
  show ?case
  proof (cases ok)
    case False
    with ok 3(4) have "fst (try_values cw doms var rest (AList.delete var a)) = Inr (Some r)"
      by simp
    from 3(3) [OF refl ok False this] ok False show ?thesis by simp
  next
    case True
    obtain res a' d' where bt: "backtrack cw doms (AList.update var val a) = (res, a', d')"
      by (cases "backtrack cw doms (AList.update var val a)") auto
    show ?thesis
    proof (cases res)
      case (Inl e)
      with ok True bt 3(4) show ?thesis by simp
    next
      case (Inr found)
      show ?thesis
      proof (cases found)
        case (Some result)
        with Inr ok True bt 3(4) have r: "result = r" by simp
        from bt Inr Some r
        have "fst (backtrack cw doms (AList.update var val a)) = Inr (Some r)" by simp
        from 3(1) [OF refl ok True this] bt ok True
        have "a' = r \<and> assignment_complete cw r \<and> consistent cw r = Inr True"
          by (auto split: if_splits)
        with Inr Some ok True bt r show ?thesis by simp
      next
        case None
        with Inr ok True bt 3(4)
        have "fst (try_values cw d' var rest (AList.delete var a')) = Inr (Some r)" by simp
        from 3(2) [OF refl ok True bt [symmetric] Inr None refl this] Inr None ok True bt
        show ?thesis by simp
      qed
    qed
  qed
qed

text \<open>
  C2, as the code has it: when \<open>backtrack\<close>, started from an assignment that is
  consistent if it is complete (the empty assignment of \<open>solve\<close>, or one with a slot
  still open), returns an assignment, then \<open>consistent\<close> and \<open>assignment_complete\<close>
  both hold of the assignment it returns. Started from a complete assignment, it
  returns that assignment without a check.
\<close>

theorem backtrack_result_consistent_complete:
  "fst (backtrack cw doms a) = Inr (Some r) \<Longrightarrow>
   (assignment_complete cw a \<longrightarrow> consistent cw a = Inr True) \<Longrightarrow>
   consistent cw r = Inr True \<and> assignment_complete cw r"
  using backtrack_try_values_result(1) [of cw doms a r]
  by (auto split: if_splits)

theorem backtrack_result_consistent_complete_witness:
  "\<not> assignment_complete example_crossword_4 [] \<and>
   fst (backtrack example_crossword_4 example_domains_4 []) =
     Inr (Some [(slot_across, ''ANA''), (slot_left, ''ABBA''), (slot_right, ''AREA'')]) \<and>
   consistent example_crossword_4
     [(slot_across, ''ANA''), (slot_left, ''ABBA''), (slot_right, ''AREA'')] = Inr True \<and>
   assignment_complete example_crossword_4
     [(slot_across, ''ANA''), (slot_left, ''ABBA''), (slot_right, ''AREA'')]"
proof -
  have n4: "\<not> assignment_complete example_crossword_4 []" by code_simp
  have h: "fst (backtrack example_crossword_4 example_domains_4 []) =
     Inr (Some [(slot_across, ''ANA''), (slot_left, ''ABBA''), (slot_right, ''AREA'')])"
    by code_simp
  from backtrack_result_consistent_complete [OF h] n4 h show ?thesis by simp
qed

text \<open>
  The claim as stated fails: an assignment that is complete and uses a word twice is
  returned, and \<open>consistent\<close> rejects it.
\<close>

theorem backtrack_result_counterexample:
  "fst (backtrack example_crossword example_domains
          [(slot_across, ''ANA''), (slot_left, ''ABBA''), (slot_right, ''ABBA'')]) =
     Inr (Some [(slot_across, ''ANA''), (slot_left, ''ABBA''), (slot_right, ''ABBA'')]) \<and>
   consistent example_crossword
     [(slot_across, ''ANA''), (slot_left, ''ABBA''), (slot_right, ''ABBA'')] = Inr False"
  by code_simp

subsection \<open>The choice of the next slot\<close>

text \<open>
  C4 fails on the code. With the domains \<open>{ANA, APA}\<close> for the slot across and
  \<open>{ABBA}\<close> for each slot down, as \<open>enforce_node_consistency\<close> and \<open>ac3\<close> leave
  them, the two slots down tie for the fewest remaining words; the tie-break then sorts
  all unassigned slots by degree and returns the slot across, which has two words left.
\<close>

theorem select_unassigned_variable_not_minimal:
  "snd (ac3 example_crossword None (enforce_node_consistency (init_domains example_crossword)))
     = example_domains \<and>
   select_unassigned_variable example_crossword example_domains [] = Inr slot_across \<and>
   map_of example_domains slot_across = Some [''ANA'', ''APA''] \<and>
   map_of example_domains slot_left = Some [''ABBA''] \<and>
   map_of example_domains slot_right = Some [''ABBA'']"
  by code_simp

subsection \<open>Soundness of pruning\<close>

lemma within_domains_iff:
  "within_domains doms a \<longleftrightarrow>
     (\<forall>(var, word) \<in> set a. \<exists>ws. map_of doms var = Some ws \<and> word \<in> set ws)"
  by (auto simp: within_domains_def list_all_iff split: option.splits)

lemma check_neighbors_True:
  "check_neighbors cw a var word ns = Inr True \<Longrightarrow> n \<in> set ns \<Longrightarrow>
     \<exists>p q nw. overlaps cw (var, n) = Some (Some (p, q)) \<and> p < length word \<and>
       map_of a n = Some nw \<and> q < length nw \<and> word ! p = nw ! q"
  by (induction ns) (auto split: option.splits if_splits prod.splits)

lemma check_items_True:
  "check_items cw a items = Inr True \<Longrightarrow> (var, word) \<in> set items \<Longrightarrow>
     check_neighbors cw a var word
       (filter (\<lambda>neighbor. neighbor \<in> set (map fst a)) (neighbors cw var)) = Inr True"
  by (induction items) (auto split: sum.splits if_splits)

lemma consistent_overlap:
  assumes "consistent cw a = Inr True" and "(x, wx) \<in> set a"
    and "y \<in> set (neighbors cw x)" and "y \<in> fst ` set a"
  shows "\<exists>p q wy. overlaps cw (x, y) = Some (Some (p, q)) \<and> p < length wx \<and>
           map_of a y = Some wy \<and> q < length wy \<and> wx ! p = wy ! q"
proof -
  from assms(1) have "check_items cw a a = Inr True"
    by (auto simp: consistent_def split: if_splits)
  from check_items_True [OF this assms(2)]
  have "check_neighbors cw a x wx
          (filter (\<lambda>neighbor. neighbor \<in> set (map fst a)) (neighbors cw x)) = Inr True" .
  moreover from assms(3,4)
  have "y \<in> set (filter (\<lambda>neighbor. neighbor \<in> set (map fst a)) (neighbors cw x))" by simp
  ultimately show ?thesis by (rule check_neighbors_True)
qed

lemma consistent_length:
  "consistent cw a = Inr True \<Longrightarrow> (v, w) \<in> set a \<Longrightarrow> length w = var_length v"
  by (auto simp: consistent_def list_ex_iff split: if_splits)

lemma map_of_enforce_node_consistency:
  "map_of (enforce_node_consistency doms) v =
     map_option (filter (\<lambda>w. length w = var_length v)) (map_of doms v)"
  by (induction doms)
     (auto simp: enforce_node_consistency_def remove_words_def intro: filter_cong)

lemma map_of_init_domains:
  "v \<in> set (variables cw) \<Longrightarrow> map_of (init_domains cw) v = Some (words cw)"
  by (simp add: init_domains_def map_of_map_restrict)

lemma within_domains_enforce:
  assumes "consistent cw a = Inr True" and "within_domains doms a"
  shows "within_domains (enforce_node_consistency doms) a"
  using assms(2) consistent_length [OF assms(1)]
  by (fastforce simp: within_domains_iff map_of_enforce_node_consistency)

lemma wf_crossword_neighbor:
  assumes "wf_crossword cw" and "x \<in> set (variables cw)" and "y \<in> set (variables cw)"
    and "x \<noteq> y" and "overlaps cw (x, y) = Some (Some (p, q))"
  shows "overlaps cw (y, x) = Some (Some (q, p))" and "y \<in> set (neighbors cw x)"
proof -
  from assms show "overlaps cw (y, x) = Some (Some (q, p))"
    by (fastforce simp: wf_crossword_def)
  with assms show "y \<in> set (neighbors cw x)"
    by (simp add: neighbors_def)
qed

lemma corresponding_y_chars_Inr:
  "corresponding_y_chars doms y q = Inr cs \<Longrightarrow>
     \<exists>dy. map_of doms y = Some dy \<and> (\<forall>w \<in> set dy. q < length w) \<and> cs = (\<lambda>w. w ! q) ` set dy"
  by (auto simp: corresponding_y_chars_def list_all_iff split: option.splits if_splits)

lemma revise_within_domains:
  assumes wf: "wf_crossword cw"
    and xy: "x \<in> set (variables cw)" "y \<in> set (variables cw)" "x \<noteq> y"
    and sol: "solution cw a" and within: "within_domains doms a"
    and rev: "revise cw doms x y = (r, doms')"
  shows "within_domains doms' a"
proof -
  from revise_cases [OF rev] show ?thesis
  proof (elim disjE exE conjE)
    fix p q dx cs
    assume ov: "overlaps cw (x, y) = Some (Some (p, q))"
      and dx: "map_of doms x = Some dx"
      and cs: "dx \<noteq> [] \<longrightarrow> corresponding_y_chars doms y q = Inr cs"
      and d': "doms' = AList.update x (filter (\<lambda>w. w ! p \<in> cs) dx) doms"
    from sol have complete: "assignment_complete cw a" and cons: "consistent cw a = Inr True"
      by (simp_all add: solution_def)
    from wf_crossword_neighbor [OF wf xy ov] have nb: "y \<in> set (neighbors cw x)" by simp
    from complete xy have ykey: "y \<in> fst ` set a"
      by (simp add: assignment_complete_def)
    show ?thesis
      unfolding within_domains_iff
    proof (clarify)
      fix v w
      assume item: "(v, w) \<in> set a"
      from within item obtain ws where ws: "map_of doms v = Some ws" "w \<in> set ws"
        by (auto simp: within_domains_iff)
      show "\<exists>ws. map_of doms' v = Some ws \<and> w \<in> set ws"
      proof (cases "v = x")
        case False
        with ws d' show ?thesis by (simp add: AList.update_conv')
      next
        case True
        with ws dx have wdx: "w \<in> set dx" by simp
        then have "dx \<noteq> []" by auto
        with cs obtain dy where dy: "map_of doms y = Some dy"
          and csd: "cs = (\<lambda>w. w ! q) ` set dy"
          by (auto dest: corresponding_y_chars_Inr)
        from consistent_overlap [OF cons item [unfolded True] nb ykey] ov
        obtain wy where wy: "map_of a y = Some wy" "w ! p = wy ! q" by auto
        from wy(1) have "(y, wy) \<in> set a" by (rule map_of_SomeD)
        with within dy have "wy \<in> set dy" by (auto simp: within_domains_iff)
        with wy(2) csd have "w ! p \<in> cs" by auto
        with wdx True d' show ?thesis by (simp add: AList.update_conv')
      qed
    qed
  qed (use within in auto)
qed

lemma proper_arcs_filter_arcs:
  "filter_arcs cw arcs = Inr queue \<Longrightarrow>
     list_all (\<lambda>(x, y). x \<in> set (variables cw) \<and> y \<in> set (variables cw)) arcs \<Longrightarrow>
     proper_arcs cw queue"
  by (induction cw arcs arbitrary: queue rule: filter_arcs.induct)
     (auto simp: proper_arcs_def split: if_splits option.splits sum.splits)

lemma proper_arcs_initial: "initial_arcs cw = Inr queue \<Longrightarrow> proper_arcs cw queue"
  unfolding initial_arcs_def
  by (erule proper_arcs_filter_arcs) (auto simp: list_all_iff)

lemma proper_arcs_enqueue:
  assumes "proper_arcs cw ((x, y) # queue)"
  shows "proper_arcs cw (queue @ map (\<lambda>z. (z, x)) (removeAll y (neighbors cw x)))"
  using assms by (auto simp: proper_arcs_def list_all_iff neighbors_def)

lemma ac3_iteration_sound:
  assumes wf: "wf_crossword cw" and sol: "solution cw a"
    and proper: "proper_arcs cw queue" and within: "within_domains doms a"
  shows "case ac3_iteration cw queue doms of
           Inl (res, doms') \<Rightarrow> within_domains doms' a \<and> res \<noteq> Inr False
         | Inr (queue', doms') \<Rightarrow> within_domains doms' a \<and> proper_arcs cw queue'"
proof (cases queue)
  case Nil
  with within show ?thesis by simp
next
  case (Cons arc rest)
  obtain x y where arc: "arc = (x, y)" by (cases arc)
  from proper Cons arc have xy: "x \<in> set (variables cw)" "y \<in> set (variables cw)" "x \<noteq> y"
    by (simp_all add: proper_arcs_def)
  obtain r d where rev: "revise cw doms x y = (r, d)" by (cases "revise cw doms x y")
  from revise_within_domains [OF wf xy sol within rev] have wd: "within_domains d a" .
  from proper Cons have rest: "proper_arcs cw rest" by (simp add: proper_arcs_def)
  show ?thesis
  proof (cases r)
    case (Inl e)
    with Cons arc rev wd show ?thesis by simp
  next
    case (Inr revised)
    show ?thesis
    proof (cases revised)
      case False
      with Cons arc rev Inr wd rest show ?thesis by simp
    next
      case True
      from sol xy(1) have "x \<in> fst ` set a"
        by (simp add: solution_def assignment_complete_def)
      then obtain w where "(x, w) \<in> set a" by force
      with wd obtain dx where dx: "map_of d x = Some dx" "w \<in> set dx"
        by (auto simp: within_domains_iff)
      then have "length dx \<noteq> 0" by auto
      with Cons arc rev Inr True wd dx(1)
        proper_arcs_enqueue [OF proper [unfolded Cons arc]]
      show ?thesis by simp
    qed
  qed
qed

lemma ac3_loop_sound:
  "wf_crossword cw \<Longrightarrow> solution cw a \<Longrightarrow> proper_arcs cw queue \<Longrightarrow> within_domains doms a \<Longrightarrow>
     within_domains (snd (ac3_loop cw queue doms)) a \<and> fst (ac3_loop cw queue doms) \<noteq> Inr False"
proof (induction cw queue doms rule: ac3_loop.induct)
  case (1 cw queue doms)
  note step = ac3_iteration_sound [OF "1.prems"]
  show ?case
  proof (cases "ac3_iteration cw queue doms")
    case (Inl res)
    with step show ?thesis
      by (cases res) (simp add: ac3_loop.simps [of cw queue doms])
  next
    case (Inr s)
    obtain queue' doms' where s: "s = (queue', doms')" by (cases s)
    from step Inr s have "within_domains doms' a" "proper_arcs cw queue'" by simp_all
    from "1.IH" [OF Inr [unfolded s] refl "1.prems"(1,2) this(2,1)] Inr s
    show ?thesis by (simp add: ac3_loop.simps [of cw queue doms])
  qed
qed

lemma ac3_sound:
  assumes wf: "wf_crossword cw" and sol: "solution cw a" and within: "within_domains doms a"
  shows "within_domains (snd (ac3 cw None doms)) a \<and> fst (ac3 cw None doms) \<noteq> Inr False"
proof (cases "initial_arcs cw")
  case (Inl e)
  with within show ?thesis by (simp add: ac3_def)
next
  case (Inr queue)
  from ac3_loop_sound [OF wf sol proper_arcs_initial [OF Inr] within] Inr
  show ?thesis by (simp add: ac3_def)
qed

text \<open>
  C1: on a grid model, when \<open>ac3()\<close>, run after \<open>enforce_node_consistency\<close> on the
  domains of \<open>__init__\<close>, returns \<open>False\<close>, no complete consistent assignment takes
  its words from those first domains; and a word that \<open>revise(x, y)\<close> removes from the
  domain of \<open>x\<close>, for different slots \<open>x\<close> and \<open>y\<close> of the grid, is the word of
  \<open>x\<close> in no complete consistent assignment that takes its words from the domains
  before the call.
\<close>

theorem pruning_sound:
  assumes "wf_crossword cw"
  shows "(fst (ac3 cw None (enforce_node_consistency (init_domains cw))) = Inr False \<longrightarrow>
            \<not> (\<exists>a. solution cw a \<and> within_domains (init_domains cw) a)) \<and>
         (x \<in> set (variables cw) \<and> y \<in> set (variables cw) \<and> x \<noteq> y \<and>
          map_of doms x = Some dx \<and> map_of (snd (revise cw doms x y)) x = Some dx' \<and>
          w \<in> set dx \<and> w \<notin> set dx' \<longrightarrow>
            \<not> (\<exists>a. solution cw a \<and> within_domains doms a \<and> (x, w) \<in> set a))"
proof (intro conjI impI notI)
  assume False: "fst (ac3 cw None (enforce_node_consistency (init_domains cw))) = Inr False"
  assume "\<exists>a. solution cw a \<and> within_domains (init_domains cw) a"
  then obtain a where sol: "solution cw a" and w0: "within_domains (init_domains cw) a"
    by blast
  from sol have "consistent cw a = Inr True" by (simp add: solution_def)
  from within_domains_enforce [OF this w0]
  have "within_domains (enforce_node_consistency (init_domains cw)) a" .
  from ac3_sound [OF assms sol this] False show False by simp
next
  assume h: "x \<in> set (variables cw) \<and> y \<in> set (variables cw) \<and> x \<noteq> y \<and>
          map_of doms x = Some dx \<and> map_of (snd (revise cw doms x y)) x = Some dx' \<and>
          w \<in> set dx \<and> w \<notin> set dx'"
  assume "\<exists>a. solution cw a \<and> within_domains doms a \<and> (x, w) \<in> set a"
  then obtain a where sol: "solution cw a" and wd: "within_domains doms a"
    and item: "(x, w) \<in> set a"
    by blast
  obtain r d where rev: "revise cw doms x y = (r, d)" by (cases "revise cw doms x y")
  from h have xy: "x \<in> set (variables cw)" "y \<in> set (variables cw)" "x \<noteq> y" by simp_all
  from revise_within_domains [OF assms xy sol wd rev] item
  obtain ws where "map_of d x = Some ws" "w \<in> set ws"
    by (auto simp: within_domains_iff)
  with h rev show False by simp
qed

theorem pruning_sound_witness:
  "wf_crossword example_crossword_unsat \<and>
   fst (ac3 example_crossword_unsat None
          (enforce_node_consistency (init_domains example_crossword_unsat))) = Inr False \<and>
   \<not> (\<exists>a. solution example_crossword_unsat a \<and>
            within_domains (init_domains example_crossword_unsat) a) \<and>
   map_of example_domains_unsat slot_across = Some [''ONE''] \<and>
   map_of (snd (revise example_crossword_unsat example_domains_unsat slot_across slot_left))
     slot_across = Some [] \<and>
   \<not> (\<exists>a. solution example_crossword_unsat a \<and> within_domains example_domains_unsat a \<and>
            (slot_across, ''ONE'') \<in> set a)"
proof -
  have wf: "wf_crossword example_crossword_unsat"
    by (simp add: wf_crossword_def example_crossword_unsat_def example_defs)
  have f: "fst (ac3 example_crossword_unsat None
             (enforce_node_consistency (init_domains example_crossword_unsat))) = Inr False"
    by code_simp
  have vars: "slot_across \<in> set (variables example_crossword_unsat)"
    "slot_left \<in> set (variables example_crossword_unsat)" "slot_across \<noteq> slot_left"
    by (simp_all add: example_crossword_unsat_def example_defs)
  have dx: "map_of example_domains_unsat slot_across = Some [''ONE'']"
    by code_simp
  have dx': "map_of (snd (revise example_crossword_unsat example_domains_unsat
                        slot_across slot_left)) slot_across = Some []"
    by code_simp
  from pruning_sound [OF wf, where x = slot_across and y = slot_left
         and doms = example_domains_unsat and dx = "[''ONE'']" and dx' = "[]"
         and w = "''ONE''"] wf f vars dx dx'
  show ?thesis by simp
qed

subsection \<open>Arc consistency after \<open>ac3\<close>\<close>

lemma supported_iff:
  "supported doms A B p q \<longleftrightarrow>
     (\<exists>da. map_of doms A = Some da \<and>
        (\<forall>w \<in> set da. \<exists>db. map_of doms B = Some db \<and>
           (\<exists>w' \<in> set db. p < length w \<and> q < length w' \<and> w ! p = w' ! q)))"
  by (auto simp: supported_def list_all_iff list_ex_iff split: option.splits)

lemma arc_consistent_iff: "arc_consistent cw doms \<longleftrightarrow> ac3_invariant cw [] doms"
  by (fastforce simp: arc_consistent_def ac3_invariant_def list_all_iff
        split: option.splits)

lemma supported_revised_arc:
  assumes "x \<noteq> y" and "map_of doms x = Some dx"
    and "dx \<noteq> [] \<longrightarrow> corresponding_y_chars doms y q = Inr cs"
    and "\<forall>w \<in> set dx. p < length w"
  shows "supported (AList.update x (filter (\<lambda>w. w ! p \<in> cs) dx) doms) x y p q"
proof (cases "dx = []")
  case True
  then show ?thesis by (simp add: supported_iff AList.update_conv')
next
  case False
  with assms(3) obtain dy where "map_of doms y = Some dy" "\<forall>w \<in> set dy. q < length w"
    "cs = (\<lambda>w. w ! q) ` set dy"
    by (auto dest: corresponding_y_chars_Inr)
  with assms(1,4) show ?thesis
    by (auto simp: supported_iff AList.update_conv')
qed

lemma supported_other_target:
  assumes "supported doms a b p' q'" and "b \<noteq> x" and "map_of doms x = Some dx"
    and "set dx' \<subseteq> set dx"
  shows "supported (AList.update x dx' doms) a b p' q'"
proof (cases "a = x")
  case True
  with assms show ?thesis
    by (auto simp: supported_iff AList.update_conv' subset_iff)
next
  case False
  with assms show ?thesis
    by (simp add: supported_iff AList.update_conv')
qed

lemma supported_reverse_arc:
  assumes "supported doms y x q p" and "x \<noteq> y" and "map_of doms x = Some dx"
    and "dx \<noteq> [] \<longrightarrow> corresponding_y_chars doms y q = Inr cs"
  shows "supported (AList.update x (filter (\<lambda>w. w ! p \<in> cs) dx) doms) y x q p"
proof -
  from assms(1) obtain dy where dy: "map_of doms y = Some dy"
    and sup: "\<forall>w' \<in> set dy. \<exists>w \<in> set dx. q < length w' \<and> p < length w \<and> w' ! q = w ! p"
    using assms(3) by (auto simp: supported_iff)
  have "\<exists>w \<in> set (filter (\<lambda>w. w ! p \<in> cs) dx). q < length w' \<and> p < length w \<and> w' ! q = w ! p"
    if w': "w' \<in> set dy" for w'
  proof -
    from sup w' obtain w where w: "w \<in> set dx" "q < length w'" "p < length w" "w' ! q = w ! p"
      by blast
    then have "dx \<noteq> []" by auto
    with assms(4) dy have "cs = (\<lambda>w. w ! q) ` set dy"
      by (auto dest: corresponding_y_chars_Inr)
    with w(4) w' have "w ! p \<in> cs" by force
    with w show ?thesis by auto
  qed
  with dy assms(2) show ?thesis
    by (simp add: supported_iff AList.update_conv')
qed

lemma ac3_iteration_continue:
  assumes "ac3_iteration cw ((x, y) # rest) doms = Inr (queue', doms')"
  obtains revised where "revise cw doms x y = (Inr revised, doms')"
    and "queue' = (if revised then rest @ map (\<lambda>z. (z, x)) (removeAll y (neighbors cw x))
                   else rest)"
proof -
  obtain r d where rev: "revise cw doms x y = (r, d)" by (cases "revise cw doms x y")
  with assms obtain revised where r: "r = Inr revised" by (cases r) auto
  from assms rev r have "d = doms'"
    and "queue' = (if revised then rest @ map (\<lambda>z. (z, x)) (removeAll y (neighbors cw x))
                   else rest)"
    by (auto split: if_splits option.splits)
  with rev r that show thesis by simp
qed

lemma ac3_iteration_invariant:
  assumes wf: "wf_crossword cw" and inv: "ac3_invariant cw queue doms"
    and step: "ac3_iteration cw queue doms = Inr (queue', doms')"
  shows "ac3_invariant cw queue' doms'"
proof (cases queue)
  case Nil
  with step show ?thesis by simp
next
  case (Cons arc rest)
  obtain x y where arc: "arc = (x, y)" by (cases arc)
  from step [unfolded Cons arc] obtain revised
    where rev: "revise cw doms x y = (Inr revised, doms')"
      and queue': "queue' = (if revised
                     then rest @ map (\<lambda>z. (z, x)) (removeAll y (neighbors cw x)) else rest)"
    by (rule ac3_iteration_continue)
  from queue' have rest: "set rest \<subseteq> set queue'" by auto
  from revise_cases [OF rev]
  consider (none) "doms' = doms" "overlaps cw (x, y) = Some None"
    | (some) p q dx cs where "overlaps cw (x, y) = Some (Some (p, q))"
        "map_of doms x = Some dx"
        "dx \<noteq> [] \<longrightarrow> corresponding_y_chars doms y q = Inr cs"
        "\<forall>w \<in> set dx. p < length w"
        "doms' = AList.update x (filter (\<lambda>w. w ! p \<in> cs) dx) doms"
    by auto
  then show ?thesis
  proof cases
    case none
    show ?thesis
      unfolding ac3_invariant_def
    proof (intro ballI allI impI, elim conjE)
      fix a b p' q'
      assume ab: "a \<in> set (variables cw)" "b \<in> set (variables cw)" "a \<noteq> b"
        and ov': "overlaps cw (a, b) = Some (Some (p', q'))"
      with none(2) have "(a, b) \<noteq> (x, y)" by auto
      with inv ab ov' Cons arc have "(a, b) \<in> set rest \<or> supported doms a b p' q'"
        by (auto simp: ac3_invariant_def)
      with rest none(1) show "(a, b) \<in> set queue' \<or> supported doms' a b p' q'" by auto
    qed
  next
    case (some p q dx cs)
    note ov = some(1) and dx = some(2) and cs = some(3) and len = some(4) and d' = some(5)
    have sub: "set (filter (\<lambda>w. w ! p \<in> cs) dx) \<subseteq> set dx" by auto
    show ?thesis
      unfolding ac3_invariant_def
    proof (intro ballI allI impI, elim conjE)
      fix a b p' q'
      assume ab: "a \<in> set (variables cw)" "b \<in> set (variables cw)" "a \<noteq> b"
        and ov': "overlaps cw (a, b) = Some (Some (p', q'))"
      show "(a, b) \<in> set queue' \<or> supported doms' a b p' q'"
      proof (cases "(a, b) = (x, y)")
        case True
        with ov ov' have pq: "p' = p" "q' = q" by simp_all
        from True ab(3) have "x \<noteq> y" by simp
        from supported_revised_arc [OF this dx cs len] True pq d'
        show ?thesis by simp
      next
        case False
        with inv ab ov' Cons arc
        have pend: "(a, b) \<in> set rest \<or> supported doms a b p' q'"
          by (auto simp: ac3_invariant_def)
        show ?thesis
        proof (cases "(a, b) \<in> set rest")
          case True
          with rest show ?thesis by auto
        next
          case notin: False
          with pend have sup: "supported doms a b p' q'" by simp
          show ?thesis
          proof (cases "b = x")
            case False
            from supported_other_target [OF sup False dx sub] d' show ?thesis by simp
          next
            case bx: True
            show ?thesis
            proof (cases "a = y")
              case True
              from wf_crossword_neighbor(1) [OF wf ab ov'] True bx
              have "overlaps cw (x, y) = Some (Some (q', p'))" by simp
              with ov have pq: "p = q'" "q = p'" by simp_all
              from ab(3) True bx have "x \<noteq> y" by simp
              from supported_reverse_arc [OF _ this dx cs] sup True bx pq d'
              show ?thesis by simp
            next
              case ay: False
              show ?thesis
              proof (cases revised)
                case True
                from ab ov' bx have "a \<in> set (neighbors cw x)"
                  by (simp add: neighbors_def)
                with ay True queue' bx show ?thesis by simp
              next
                case False
                with rev have "doms' = doms" by (auto dest: revise_False_same)
                with sup show ?thesis by simp
              qed
            qed
          qed
        qed
      qed
    qed
  qed
qed

lemma ac3_iteration_True:
  "ac3_iteration cw queue doms = Inl (Inr True, doms') \<Longrightarrow> queue = [] \<and> doms' = doms"
  by (cases queue) (auto split: prod.splits sum.splits option.splits if_splits)

lemma ac3_loop_invariant:
  "wf_crossword cw \<Longrightarrow> ac3_invariant cw queue doms \<Longrightarrow>
     ac3_loop cw queue doms = (Inr True, doms') \<Longrightarrow> ac3_invariant cw [] doms'"
proof (induction cw queue doms rule: ac3_loop.induct)
  case (1 cw queue doms)
  show ?case
  proof (cases "ac3_iteration cw queue doms")
    case (Inl res)
    with "1.prems"(3) have "ac3_iteration cw queue doms = Inl (Inr True, doms')"
      by (simp add: ac3_loop.simps [of cw queue doms])
    from ac3_iteration_True [OF this] "1.prems"(2) show ?thesis by simp
  next
    case (Inr s)
    obtain queue' d where s: "s = (queue', d)" by (cases s)
    from ac3_iteration_invariant [OF "1.prems"(1,2) Inr [unfolded s]]
    have inv: "ac3_invariant cw queue' d" .
    from "1.prems"(3) Inr s have "ac3_loop cw queue' d = (Inr True, doms')"
      by (simp add: ac3_loop.simps [of cw queue doms])
    from "1.IH" [OF Inr [unfolded s] refl "1.prems"(1) inv this] show ?thesis .
  qed
qed

lemma filter_arcs_complete:
  "filter_arcs cw arcs = Inr queue \<Longrightarrow> (x, y) \<in> set arcs \<Longrightarrow> x \<noteq> y \<Longrightarrow>
     overlaps cw (x, y) = Some (Some ov) \<Longrightarrow> (x, y) \<in> set queue"
  by (induction cw arcs arbitrary: queue rule: filter_arcs.induct)
     (auto split: if_splits option.splits sum.splits)

lemma ac3_invariant_initial:
  assumes "initial_arcs cw = Inr queue"
  shows "ac3_invariant cw queue doms"
  unfolding ac3_invariant_def
proof (intro ballI allI impI, elim conjE)
  fix x y p q
  assume "x \<in> set (variables cw)" "y \<in> set (variables cw)" "x \<noteq> y"
    "overlaps cw (x, y) = Some (Some (p, q))"
  with filter_arcs_complete [OF assms [unfolded initial_arcs_def], of x y "(p, q)"]
  show "(x, y) \<in> set queue \<or> supported doms x y p q" by simp
qed

text \<open>
  C3: on a grid model, when \<open>ac3()\<close> returns \<open>True\<close>, the store it leaves is arc
  consistent: for slots \<open>A\<close> and \<open>B\<close> that overlap at \<open>(p, q)\<close>, each word left in the
  domain of \<open>A\<close> has a word in the domain of \<open>B\<close> with the same character at the
  overlap, and each word left in the domain of \<open>B\<close> has such a word in the domain of
  \<open>A\<close>.
\<close>

theorem ac3_arc_consistent:
  assumes "wf_crossword cw" and "ac3 cw None doms = (Inr True, doms')"
  shows "arc_consistent cw doms' \<and>
         (\<forall>A \<in> set (variables cw). \<forall>B \<in> set (variables cw). \<forall>p q.
            A \<noteq> B \<and> overlaps cw (A, B) = Some (Some (p, q)) \<longrightarrow>
              supported doms' A B p q \<and> supported doms' B A q p)"
proof -
  from assms(2) obtain queue where q: "initial_arcs cw = Inr queue"
    and loop: "ac3_loop cw queue doms = (Inr True, doms')"
    by (auto simp: ac3_def split: sum.splits)
  from ac3_loop_invariant [OF assms(1) ac3_invariant_initial [OF q] loop]
  have inv: "ac3_invariant cw [] doms'" .
  then have "arc_consistent cw doms'" by (simp add: arc_consistent_iff)
  moreover have "supported doms' A B p q \<and> supported doms' B A q p"
    if "A \<in> set (variables cw)" "B \<in> set (variables cw)" "A \<noteq> B"
      "overlaps cw (A, B) = Some (Some (p, q))" for A B p q
  proof -
    from wf_crossword_neighbor(1) [OF assms(1) that]
    have "overlaps cw (B, A) = Some (Some (q, p))" .
    with inv that show ?thesis by (auto simp: ac3_invariant_def)
  qed
  ultimately show ?thesis by blast
qed

theorem ac3_arc_consistent_witness:
  "wf_crossword example_crossword \<and>
   ac3 example_crossword None (init_domains example_crossword) =
     (Inr True,
      [(slot_across, [''ANA'', ''APA'']),
       (slot_left, [''ABBA'', ''ANA'', ''APA'']),
       (slot_right, [''ABBA'', ''ANA'', ''APA''])]) \<and>
   arc_consistent example_crossword
     [(slot_across, [''ANA'', ''APA'']),
      (slot_left, [''ABBA'', ''ANA'', ''APA'']),
      (slot_right, [''ABBA'', ''ANA'', ''APA''])] \<and>
   supported
     [(slot_across, [''ANA'', ''APA'']),
      (slot_left, [''ABBA'', ''ANA'', ''APA'']),
      (slot_right, [''ABBA'', ''ANA'', ''APA''])] slot_across slot_right 2 0 \<and>
   supported
     [(slot_across, [''ANA'', ''APA'']),
      (slot_left, [''ABBA'', ''ANA'', ''APA'']),
      (slot_right, [''ABBA'', ''ANA'', ''APA''])] slot_right slot_across 0 2"
proof -
  let ?D = "[(slot_across, [''ANA'', ''APA'']),
             (slot_left, [''ABBA'', ''ANA'', ''APA'']),
             (slot_right, [''ABBA'', ''ANA'', ''APA''])]"
  have wf: "wf_crossword example_crossword"
    by (simp add: wf_crossword_def example_defs)
  have h: "ac3 example_crossword None (init_domains example_crossword) = (Inr True, ?D)"
    by code_simp
  have vars: "slot_across \<in> set (variables example_crossword)"
    "slot_right \<in> set (variables example_crossword)" "slot_across \<noteq> slot_right"
    "overlaps example_crossword (slot_across, slot_right) = Some (Some (2, 0))"
    by (simp_all add: example_defs)
  from ac3_arc_consistent [OF wf h]
  have ac: "arc_consistent example_crossword ?D"
    and all: "\<forall>A \<in> set (variables example_crossword).
                \<forall>B \<in> set (variables example_crossword). \<forall>p q.
                  A \<noteq> B \<and> overlaps example_crossword (A, B) = Some (Some (p, q)) \<longrightarrow>
                    supported ?D A B p q \<and> supported ?D B A q p"
    by blast+
  from all vars have "supported ?D slot_across slot_right 2 0 \<and>
                      supported ?D slot_right slot_across 0 2"
    by blast
  with wf h ac show ?thesis by blast
qed

end
